theory Spec2Isabelle
  imports Main "HOL-Library.Word" "HOL-Library.Product_Lexorder" "HOL-Library.Multiset"
begin

unbundle bit_operations_syntax

section \<open>The deterministic day selector of \<^verbatim>\<open>verify_sha256.py\<close>\<close>

text \<open>
  The model starts from the text that \<^verbatim>\<open>f.read()\<close> returns. A Python \<^verbatim>\<open>str\<close> is a
  \<^typ>\<open>string\<close> whose characters are the code points U+0000 to U+00FF (the column names
  of the schema need U+00B0 and U+00B3); encoding to UTF-8 is written out below.
  Every exception the code can raise is a value of \<open>error\<close>.
\<close>

datatype error = IndexError | KeyError | ValueError | IllegalMonthError

subsection \<open>The string operations of the Python library\<close>

text \<open>\<^verbatim>\<open>str.isspace\<close> on the code points below 256: what \<^verbatim>\<open>str.strip()\<close> removes.\<close>

definition is_space :: "char \<Rightarrow> bool" where
  "is_space c \<longleftrightarrow> of_char c \<in> {9, 10, 11, 12, 13, 28, 29, 30, 31, 32, 133, 160 :: nat}"

definition lstrip :: "string \<Rightarrow> string" where
  "lstrip s = dropWhile is_space s"

definition rstrip :: "string \<Rightarrow> string" where
  "rstrip s = rev (dropWhile is_space (rev s))"

definition strip :: "string \<Rightarrow> string" where
  "strip s = rstrip (lstrip s)"

text \<open>\<^verbatim>\<open>s.split(sep)\<close> for a separator of one character: never empty, \<^verbatim>\<open>''.split(sep) == ['']\<close>.\<close>

fun split :: "char \<Rightarrow> string \<Rightarrow> string list" where
  "split sep [] = [[]]"
| "split sep (c # cs) =
     (if c = sep then [] # split sep cs
      else (case split sep cs of p # ps \<Rightarrow> (c # p) # ps | [] \<Rightarrow> [[c]]))"

text \<open>\<^verbatim>\<open>sep.join(parts)\<close>.\<close>

fun join :: "string \<Rightarrow> string list \<Rightarrow> string" where
  "join sep [] = []"
| "join sep [p] = p"
| "join sep (p # q # ps) = p @ sep @ join sep (q # ps)"

text \<open>
  \<^verbatim>\<open>int(s)\<close> on a string, base 10: blanks around the number (the six ASCII blanks and the
  two blanks above U+007F; U+001C to U+001F are not skipped here although \<^verbatim>\<open>strip\<close> removes
  them), one optional sign, decimal digits with single underscores between digits.
  Anything else raises \<^verbatim>\<open>ValueError\<close>. The interpreter's configurable limit on the number
  of digits is left out: integers are unbounded.
\<close>

definition int_space :: "char \<Rightarrow> bool" where
  "int_space c \<longleftrightarrow> of_char c \<in> {9, 10, 11, 12, 13, 32, 133, 160 :: nat}"

definition is_digit :: "char \<Rightarrow> bool" where
  "is_digit c \<longleftrightarrow> 48 \<le> (of_char c :: nat) \<and> (of_char c :: nat) \<le> 57"

definition digit_or_underscore :: "char \<Rightarrow> bool" where
  "digit_or_underscore c \<longleftrightarrow> is_digit c \<or> c = CHR ''_''"

fun double_underscore :: "string \<Rightarrow> bool" where
  "double_underscore (a # b # cs) =
     ((a = CHR ''_'' \<and> b = CHR ''_'') \<or> double_underscore (b # cs))"
| "double_underscore _ = False"

definition digits_value :: "string \<Rightarrow> int" where
  "digits_value ds = foldl (\<lambda>acc c. 10 * acc + (of_char c - 48)) 0 ds"

definition py_int :: "string \<Rightarrow> error + int" where
  "py_int s =
     (let s1 = dropWhile int_space s;
          neg = (s1 \<noteq> [] \<and> hd s1 = CHR ''-'');
          s2 = (if s1 \<noteq> [] \<and> (hd s1 = CHR ''-'' \<or> hd s1 = CHR ''+'') then tl s1 else s1);
          body = takeWhile digit_or_underscore s2;
          rest = dropWhile digit_or_underscore s2
      in if body = [] \<or> hd body = CHR ''_'' \<or> last body = CHR ''_''
            \<or> double_underscore body \<or> \<not> list_all int_space rest
         then Inl ValueError
         else Inr ((if neg then - 1 else 1) * digits_value (filter is_digit body)))"

subsection \<open>\<^verbatim>\<open>parse_date_key\<close>\<close>

text \<open>
  \<^verbatim>\<open>
  def parse_date_key(t):
      parts = t.strip().split('/')
      if len(parts) == 3 and len(parts[2]) == 4:
          return (int(parts[2]), int(parts[1]), int(parts[0]))
      return (0, 0, 0)
  \<close>
  The tuple is built left to right, so the year is converted first.
\<close>

definition parse_date_key :: "string \<Rightarrow> error + (int \<times> int \<times> int)" where
  "parse_date_key t =
     (let parts = split CHR ''/'' (strip t)
      in if length parts = 3 \<and> length (parts ! 2) = 4 then
           (case py_int (parts ! 2) of
              Inl e \<Rightarrow> Inl e
            | Inr y \<Rightarrow>
                (case py_int (parts ! 1) of
                   Inl e \<Rightarrow> Inl e
                 | Inr m \<Rightarrow>
                     (case py_int (parts ! 0) of
                        Inl e \<Rightarrow> Inl e
                      | Inr d \<Rightarrow> Inr (y, m, d))))
         else Inr (0, 0, 0))"

subsection \<open>Reading the rows\<close>

text \<open>
  A row is the \<^verbatim>\<open>dict\<close> the reader builds: an association list in insertion order, a
  later assignment to a key already present replacing its value in place.
  \<^verbatim>\<open>
  lines = f.read().strip().split('\n')
  header = [h.strip() for h in lines[0].split(',')]
  rows = []
  for line in lines[1:]:
      vals = line.split(',')
      row = {}
      for i, h in enumerate(header):
          row[h] = vals[i].strip() if i < len(vals) else ''
      rows.append(row)
  \<close>
\<close>

text \<open>
  \<^verbatim>\<open>open(csv_path, 'r', encoding='utf-8')\<close> reads in text mode: in what \<^verbatim>\<open>f.read()\<close>
  returns, a carriage return followed by a line feed, and a carriage return alone, have
  become one line feed.
\<close>

fun universal_newlines :: "string \<Rightarrow> string" where
  "universal_newlines [] = []"
| "universal_newlines (c # cs) =
     (if c = CHR 0x0D
      then CHR 0x0A # (if cs \<noteq> [] \<and> hd cs = CHR 0x0A then universal_newlines (tl cs)
                       else universal_newlines cs)
      else c # universal_newlines cs)"

type_synonym row = "(string \<times> string) list"

fun dict_set :: "string \<Rightarrow> string \<Rightarrow> row \<Rightarrow> row" where
  "dict_set k v [] = [(k, v)]"
| "dict_set k v ((k', v') # kvs) =
     (if k' = k then (k, v) # kvs else (k', v') # dict_set k v kvs)"

text \<open>\<^verbatim>\<open>row.get(col, '')\<close>.\<close>

definition dict_get :: "row \<Rightarrow> string \<Rightarrow> string" where
  "dict_get r col = (case map_of r col of None \<Rightarrow> [] | Some v \<Rightarrow> v)"

definition read_lines :: "string \<Rightarrow> string list" where
  "read_lines text = split CHR 0x0A (strip text)"

definition read_header :: "string list \<Rightarrow> string list" where
  "read_header lines = map strip (split CHR '','' (hd lines))"

definition make_row :: "string list \<Rightarrow> string list \<Rightarrow> row" where
  "make_row header vals =
     fold (\<lambda>(i, h) r. dict_set h (if i < length vals then strip (vals ! i) else []) r)
          (enumerate 0 header) []"

definition read_rows :: "string \<Rightarrow> row list" where
  "read_rows text =
     (let lines = read_lines text; header = read_header lines
      in map (\<lambda>line. make_row header (split CHR '','' line)) (tl lines))"

subsection \<open>Sorting by date key\<close>

text \<open>
  \<^verbatim>\<open>rows.sort(key=lambda r: parse_date_key(r.get('time', '')))\<close>: the keys are computed
  for every row, in order, before anything is compared, so the first key that raises
  ends the call; the sort is stable and compares the triples lexicographically.
\<close>

fun first_error :: "(error + 'a) list \<Rightarrow> error + 'a list" where
  "first_error [] = Inr []"
| "first_error (Inl e # _) = Inl e"
| "first_error (Inr x # xs) =
     (case first_error xs of Inl e \<Rightarrow> Inl e | Inr ys \<Rightarrow> Inr (x # ys))"

definition row_key :: "row \<Rightarrow> error + (int \<times> int \<times> int)" where
  "row_key r = parse_date_key (dict_get r ''time'')"

definition sort_rows :: "row list \<Rightarrow> error + row list" where
  "sort_rows rs =
     (case first_error (map row_key rs) of
        Inl e \<Rightarrow> Inl e
      | Inr ks \<Rightarrow> Inr (map snd (sort_key fst (zip ks rs))))"

subsection \<open>The anchor row and the next month\<close>

text \<open>
  \<^verbatim>\<open>
  last_time = rows[-1]['time'].strip()
  lp = last_time.split('/')
  last_month = int(lp[1])
  last_year = int(lp[2])
  \<close>
\<close>

definition anchor_time :: "row list \<Rightarrow> error + string" where
  "anchor_time rs =
     (if rs = [] then Inl IndexError
      else (case map_of (last rs) ''time'' of
              None \<Rightarrow> Inl KeyError
            | Some v \<Rightarrow> Inr (strip v)))"

definition anchor_month_year :: "string \<Rightarrow> error + (int \<times> int)" where
  "anchor_month_year last_time =
     (let lp = split CHR ''/'' last_time
      in if length lp < 2 then Inl IndexError
         else (case py_int (lp ! 1) of
                 Inl e \<Rightarrow> Inl e
               | Inr last_month \<Rightarrow>
                   if length lp < 3 then Inl IndexError
                   else (case py_int (lp ! 2) of
                           Inl e \<Rightarrow> Inl e
                         | Inr last_year \<Rightarrow> Inr (last_month, last_year))))"

text \<open>
  \<^verbatim>\<open>
  next_mo = last_month + 1
  next_yr = last_year
  if next_mo > 12:
      next_mo = 1
      next_yr += 1
  \<close>
\<close>

definition next_month_year :: "int \<Rightarrow> int \<Rightarrow> int \<times> int" where
  "next_month_year last_month last_year =
     (let next_mo = last_month + 1; next_yr = last_year
      in if next_mo > 12 then (1, next_yr + 1) else (next_mo, next_yr))"

text \<open>
  \<^verbatim>\<open>calendar.monthrange(year, month)[1]\<close>, from the standard library (Python 3.8 and
  later, where a year of any size is accepted):
  \<^verbatim>\<open>
  def isleap(year):
      return year % 4 == 0 and (year % 100 != 0 or year % 400 == 0)
  mdays = [0, 31, 28, 31, 30, 31, 30, 31, 31, 30, 31, 30, 31]
  def monthrange(year, month):
      if not 1 <= month <= 12:
          raise IllegalMonthError(month)
      day1 = weekday(year, month, 1)
      ndays = mdays[month] + (month == February and isleap(year))
      return day1, ndays
  \<close>
\<close>

definition isleap :: "int \<Rightarrow> bool" where
  "isleap year \<longleftrightarrow> year mod 4 = 0 \<and> (year mod 100 \<noteq> 0 \<or> year mod 400 = 0)"

definition mdays :: "int list" where
  "mdays = [0, 31, 28, 31, 30, 31, 30, 31, 31, 30, 31, 30, 31]"

definition monthrange_days :: "int \<Rightarrow> int \<Rightarrow> error + int" where
  "monthrange_days year month =
     (if \<not> (1 \<le> month \<and> month \<le> 12) then Inl IllegalMonthError
      else Inr (mdays ! nat month + (if month = 2 \<and> isleap year then 1 else 0)))"

subsection \<open>The canonical string\<close>

definition HASH_COLUMNS :: "string list" where
  "HASH_COLUMNS =
     [''time'', ''year'', ''month'', ''week_of_year'', ''day_of_week'',
      ''is_market_open'', ''is_flood_crisis'', ''is_lockdown'',
      ''Avg.Price (Rs./Kg)'', ''MaxPrice (Rs./Kg)'', ''Daily_Spread'',
      ''Total Qty Arrived (Kgs)'', ''Qty Sold (Kgs)'', ''Smooth_Qty_Arrived'', ''Auctioneer'',
      ''temperature_2m_mean ('' @ [CHR 0xB0] @ ''C)'',
      ''temperature_2m_max ('' @ [CHR 0xB0] @ ''C)'',
      ''temperature_2m_min ('' @ [CHR 0xB0] @ ''C)'', ''Temp_Diff'',
      ''precipitation_sum (mm)'', ''relative_humidity_2m_mean (%)'',
      ''soil_moisture_0_to_7cm_mean (m'' @ [CHR 0xB3] @ ''/m'' @ [CHR 0xB3] @ '')'',
      ''et0_fao_evapotranspiration (mm)'',
      ''Precip_7D'', ''RH_7D'',
      ''Lag1'', ''Lag7'', ''Lag14'', ''Lag30'', ''Lag_MaxPrice_1'', ''Lag_Spread_1'',
      ''MA7'', ''MA14'', ''MA30'',
      ''Lag_Qty_Sold_1'', ''Lag_Total_Qty_Arrived_1'',
      ''Precip_30D_Sum'', ''Precip_Lag_60'', ''Soil_Moisture_Lag_14'']"

text \<open>
  \<^verbatim>\<open>
  full_string = '|'.join(
      ','.join(str(row.get(col, '')) for col in HASH_COLUMNS)
      for row in rows
  )
  \<close>
  Every value of a row is a string, so \<^verbatim>\<open>str\<close> returns it unchanged.
\<close>

definition row_string :: "row \<Rightarrow> string" where
  "row_string r = join '','' (map (\<lambda>col. dict_get r col) HASH_COLUMNS)"

definition full_string :: "row list \<Rightarrow> string" where
  "full_string rs = join ''|'' (map row_string rs)"

subsection \<open>UTF-8 and SHA-256\<close>

text \<open>
  \<^verbatim>\<open>full_string.encode('utf-8')\<close>: a code point below U+0080 is one byte, the others of
  this model (below U+0100) are two.
\<close>

definition utf8_char :: "char \<Rightarrow> 8 word list" where
  "utf8_char c =
     (let n = (of_char c :: nat)
      in if n < 128 then [of_nat n]
         else [of_nat (192 + n div 64), of_nat (128 + n mod 64)])"

definition encode_utf8 :: "string \<Rightarrow> 8 word list" where
  "encode_utf8 s = concat (map utf8_char s)"

text \<open>
  \<^verbatim>\<open>hashlib.sha256(data).hexdigest()\<close>: SHA-256 as FIPS 180-4 defines it, on 32-bit
  words, and the digest written as 64 lowercase hexadecimal digits.
\<close>

definition sha_K :: "32 word list" where
  "sha_K =
     [0x428A2F98, 0x71374491, 0xB5C0FBCF, 0xE9B5DBA5, 0x3956C25B, 0x59F111F1,
      0x923F82A4, 0xAB1C5ED5, 0xD807AA98, 0x12835B01, 0x243185BE, 0x550C7DC3,
      0x72BE5D74, 0x80DEB1FE, 0x9BDC06A7, 0xC19BF174, 0xE49B69C1, 0xEFBE4786,
      0x0FC19DC6, 0x240CA1CC, 0x2DE92C6F, 0x4A7484AA, 0x5CB0A9DC, 0x76F988DA,
      0x983E5152, 0xA831C66D, 0xB00327C8, 0xBF597FC7, 0xC6E00BF3, 0xD5A79147,
      0x06CA6351, 0x14292967, 0x27B70A85, 0x2E1B2138, 0x4D2C6DFC, 0x53380D13,
      0x650A7354, 0x766A0ABB, 0x81C2C92E, 0x92722C85, 0xA2BFE8A1, 0xA81A664B,
      0xC24B8B70, 0xC76C51A3, 0xD192E819, 0xD6990624, 0xF40E3585, 0x106AA070,
      0x19A4C116, 0x1E376C08, 0x2748774C, 0x34B0BCB5, 0x391C0CB3, 0x4ED8AA4A,
      0x5B9CCA4F, 0x682E6FF3, 0x748F82EE, 0x78A5636F, 0x84C87814, 0x8CC70208,
      0x90BEFFFA, 0xA4506CEB, 0xBEF9A3F7, 0xC67178F2]"

definition sha_H0 :: "32 word list" where
  "sha_H0 =
     [0x6A09E667, 0xBB67AE85, 0x3C6EF372, 0xA54FF53A,
      0x510E527F, 0x9B05688C, 0x1F83D9AB, 0x5BE0CD19]"

definition rotr :: "nat \<Rightarrow> 32 word \<Rightarrow> 32 word" where
  "rotr n x = drop_bit n x OR push_bit (32 - n) x"

definition small_sigma0 :: "32 word \<Rightarrow> 32 word" where
  "small_sigma0 x = rotr 7 x XOR rotr 18 x XOR drop_bit 3 x"

definition small_sigma1 :: "32 word \<Rightarrow> 32 word" where
  "small_sigma1 x = rotr 17 x XOR rotr 19 x XOR drop_bit 10 x"

definition big_sigma0 :: "32 word \<Rightarrow> 32 word" where
  "big_sigma0 x = rotr 2 x XOR rotr 13 x XOR rotr 22 x"

definition big_sigma1 :: "32 word \<Rightarrow> 32 word" where
  "big_sigma1 x = rotr 6 x XOR rotr 11 x XOR rotr 25 x"

definition ch :: "32 word \<Rightarrow> 32 word \<Rightarrow> 32 word \<Rightarrow> 32 word" where
  "ch x y z = (x AND y) XOR (NOT x AND z)"

definition maj :: "32 word \<Rightarrow> 32 word \<Rightarrow> 32 word \<Rightarrow> 32 word" where
  "maj x y z = (x AND y) XOR (x AND z) XOR (y AND z)"

text \<open>Padding: the byte 0x80, zeros up to 56 modulo 64, the length in bits on 8 bytes.\<close>

definition length_bytes :: "nat \<Rightarrow> 8 word list" where
  "length_bytes n =
     (let bits = (of_nat (8 * n) :: 64 word)
      in map (\<lambda>i. ucast (drop_bit (56 - 8 * i) bits)) [0..<8])"

definition sha_pad :: "8 word list \<Rightarrow> 8 word list" where
  "sha_pad msg =
     msg @ [0x80] @ replicate ((119 - length msg mod 64) mod 64) 0
         @ length_bytes (length msg)"

definition be_word :: "8 word list \<Rightarrow> 32 word" where
  "be_word bs = foldl (\<lambda>acc b. push_bit 8 acc OR ucast b) 0 bs"

fun chunks :: "nat \<Rightarrow> nat \<Rightarrow> 'a list \<Rightarrow> 'a list list" where
  "chunks 0 k xs = []"
| "chunks (Suc n) k xs = take k xs # chunks n k (drop k xs)"

text \<open>The message schedule: 16 words of the block, extended to 64.\<close>

fun schedule :: "nat \<Rightarrow> 32 word list \<Rightarrow> 32 word list" where
  "schedule 0 w = w"
| "schedule (Suc n) w =
     (let t = length w
      in schedule n (w @ [small_sigma1 (w ! (t - 2)) + w ! (t - 7)
                            + small_sigma0 (w ! (t - 15)) + w ! (t - 16)]))"

definition sha_round :: "32 word list \<Rightarrow> 32 word \<times> 32 word \<Rightarrow> 32 word list" where
  "sha_round v kw =
     (case v of
        [a, b, c, d, e, f, g, h] \<Rightarrow>
          (let t1 = h + big_sigma1 e + ch e f g + fst kw + snd kw;
               t2 = big_sigma0 a + maj a b c
           in [t1 + t2, a, b, c, d + t1, e, f, g])
      | _ \<Rightarrow> v)"

definition sha_block :: "32 word list \<Rightarrow> 8 word list \<Rightarrow> 32 word list" where
  "sha_block hs block =
     (let w = schedule 48 (map be_word (chunks 16 4 block));
          v = foldl sha_round hs (zip sha_K w)
      in map (\<lambda>(x, y). x + y) (zip hs v))"

definition sha256_words :: "8 word list \<Rightarrow> 32 word list" where
  "sha256_words msg =
     (let padded = sha_pad msg
      in foldl sha_block sha_H0 (chunks (length padded div 64) 64 padded))"

definition hex_digit :: "nat \<Rightarrow> char" where
  "hex_digit n = ''0123456789abcdef'' ! n"

definition hex_word :: "32 word \<Rightarrow> string" where
  "hex_word w = map (\<lambda>i. hex_digit (unat (drop_bit (28 - 4 * i) w AND 0xF))) [0..<8]"

definition sha256_hexdigest :: "8 word list \<Rightarrow> string" where
  "sha256_hexdigest msg = concat (map hex_word (sha256_words msg))"

text \<open>
  \<^verbatim>\<open>int(prefix, 16)\<close>. The prefix is always eight hexadecimal digits (lemma
  \<open>prefix_hex\<close> below), where the conversion is the positional value; a string that is not
  made of hexadecimal digits only is mapped to \<^verbatim>\<open>ValueError\<close>.
\<close>

definition hex_value :: "char \<Rightarrow> int option" where
  "hex_value c =
     (let n = (of_char c :: int)
      in if 48 \<le> n \<and> n \<le> 57 then Some (n - 48)
         else if 97 \<le> n \<and> n \<le> 102 then Some (n - 87)
         else if 65 \<le> n \<and> n \<le> 70 then Some (n - 55)
         else None)"

definition int_base16 :: "string \<Rightarrow> error + int" where
  "int_base16 s =
     (if s = [] \<or> \<not> list_all (\<lambda>c. hex_value c \<noteq> None) s then Inl ValueError
      else Inr (foldl (\<lambda>acc c. 16 * acc + the (hex_value c)) 0 s))"

subsection \<open>Formatting\<close>

text \<open>\<^verbatim>\<open>str(n)\<close> for an integer and \<^verbatim>\<open>s.zfill(width)\<close>.\<close>

fun nat_digits :: "nat \<Rightarrow> string" where
  "nat_digits n =
     (if n < 10 then [char_of (48 + n)]
      else nat_digits (n div 10) @ [char_of (48 + n mod 10)])"

definition str_int :: "int \<Rightarrow> string" where
  "str_int i = (if i < 0 then CHR ''-'' # nat_digits (nat (- i)) else nat_digits (nat i))"

definition zfill :: "nat \<Rightarrow> string \<Rightarrow> string" where
  "zfill width s =
     (if width \<le> length s then s
      else if s \<noteq> [] \<and> (hd s = CHR ''+'' \<or> hd s = CHR ''-'')
           then hd s # replicate (width - length s) CHR ''0'' @ tl s
      else replicate (width - length s) CHR ''0'' @ s)"

subsection \<open>\<^verbatim>\<open>compute_best_day\<close>\<close>

text \<open>The dictionary that \<^verbatim>\<open>compute_best_day\<close> returns, one field for each key.\<close>

record selection =
  rows :: nat
  last_date :: string
  next_month :: string
  days_in_month :: int
  sha256 :: string
  prefix :: string
  int_val :: int
  predicted_day :: int
  result :: string

text \<open>
  Lines 41 to 77, on the sorted rows:
  \<^verbatim>\<open>
  days_in_mo = calendar.monthrange(next_yr, next_mo)[1]
  full_string = ...
  sha = hashlib.sha256(full_string.encode('utf-8')).hexdigest()
  prefix = sha[:8]
  int_val = int(prefix, 16)
  day = (int_val % days_in_mo) + 1
  dd = str(day).zfill(2)
  mm = str(next_mo).zfill(2)
  return {...}
  \<close>
\<close>

definition select_day :: "row list \<Rightarrow> error + selection" where
  "select_day rs =
     (case anchor_time rs of
        Inl e \<Rightarrow> Inl e
      | Inr last_time \<Rightarrow>
     (case anchor_month_year last_time of
        Inl e \<Rightarrow> Inl e
      | Inr (last_month, last_year) \<Rightarrow>
     (case next_month_year last_month last_year of
        (next_mo, next_yr) \<Rightarrow>
     (case monthrange_days next_yr next_mo of
        Inl e \<Rightarrow> Inl e
      | Inr days_in_mo \<Rightarrow>
     (let sha = sha256_hexdigest (encode_utf8 (full_string rs));
          pre = take 8 sha
      in (case int_base16 pre of
            Inl e \<Rightarrow> Inl e
          | Inr iv \<Rightarrow>
              (let day = iv mod days_in_mo + 1;
                   dd = zfill 2 (str_int day);
                   mm = zfill 2 (str_int next_mo)
               in Inr \<lparr> rows = length rs,
                        last_date = last_time,
                        next_month = mm @ ''/'' @ str_int next_yr,
                        days_in_month = days_in_mo,
                        sha256 = sha,
                        prefix = pre,
                        int_val = iv,
                        predicted_day = day,
                        result = ''Best Purchase Day Next Month: '' @ dd @ ''-'' @ mm
                                   @ ''-'' @ str_int next_yr \<rparr>)))))))"

text \<open>Lines 39 to 77: the sort, then the selection on the sorted rows.\<close>

definition select_rows :: "row list \<Rightarrow> error + selection" where
  "select_rows rs =
     (case sort_rows rs of
        Inl e \<Rightarrow> Inl e
      | Inr sorted_rows \<Rightarrow> select_day sorted_rows)"

definition compute_best_day :: "string \<Rightarrow> error + selection" where
  "compute_best_day text = select_rows (read_rows text)"

section \<open>The specification's day count and canonical string\<close>

text \<open>
  The day count of a month in the proleptic Gregorian calendar, written from the calendar
  rule and not from the library's table: thirty days for April, June, September and
  November, February with 28 or, in a leap year, 29, and 31 for the rest; a year is a leap
  year when it is divisible by 4 and not by 100, or divisible by 400.
\<close>

definition gregorian_leap_year :: "int \<Rightarrow> bool" where
  "gregorian_leap_year y \<longleftrightarrow> (4 dvd y \<and> \<not> 100 dvd y) \<or> 400 dvd y"

definition gregorian_days :: "int \<Rightarrow> int \<Rightarrow> int" where
  "gregorian_days y m =
     (if m = 2 then (if gregorian_leap_year y then 29 else 28)
      else if m \<in> {4, 6, 9, 11} then 30 else 31)"





section \<open>Notions used to state the properties\<close>

text \<open>
  Two rows agree on the schema when each recognised column is absent from both or has
  the same value in both.
\<close>

definition agree_on_schema :: "row \<Rightarrow> row \<Rightarrow> bool" where
  "agree_on_schema r r' \<longleftrightarrow> list_all (\<lambda>col. map_of r col = map_of r' col) HASH_COLUMNS"

text \<open>The date key of a row whose key is computed without an exception.\<close>

definition the_key :: "row \<Rightarrow> int \<times> int \<times> int" where
  "the_key r = (case row_key r of Inr k \<Rightarrow> k | Inl _ \<Rightarrow> (0, 0, 0))"

text \<open>
  A file as a table of cells: the cells of a line separated by commas, the lines by
  line feeds. A cell holds neither of the two separators, and no carriage return, which
  text mode would turn into a line feed: so the file is read as the text it holds.
\<close>

definition render_table :: "string list list \<Rightarrow> string" where
  "render_table tbl = join [CHR 0x0A] (map (join '','') tbl)"

definition cell_ok :: "string \<Rightarrow> bool" where
  "cell_ok c \<longleftrightarrow> CHR 0x0A \<notin> set c \<and> CHR 0x0D \<notin> set c \<and> CHR '','' \<notin> set c"

definition table_ok :: "string list list \<Rightarrow> bool" where
  "table_ok tbl \<longleftrightarrow> tbl \<noteq> [] \<and> list_all (\<lambda>line. line \<noteq> [] \<and> list_all cell_ok line) tbl"

definition same_up_to_blanks :: "string list list \<Rightarrow> string list list \<Rightarrow> bool" where
  "same_up_to_blanks a b \<longleftrightarrow> list_all2 (list_all2 (\<lambda>x y. strip x = strip y)) a b"

text \<open>
  The cells of a line as the reader sees them, and a list of lines without the leading
  lines of one empty cell (with one such line left when there is no other).
\<close>

definition line_cells :: "string \<Rightarrow> string list" where
  "line_cells l = map strip (split CHR '','' l)"

definition drop_blank_lines :: "string list list \<Rightarrow> string list list" where
  "drop_blank_lines ls =
     (let ys = dropWhile (\<lambda>l. l = [[]]) ls in if ys = [] then [[[]]] else ys)"

section \<open>Auxiliary facts\<close>

subsection \<open>Splitting\<close>

lemma split_not_Nil: "split sep s \<noteq> []"
  by (induction s) (auto split: list.splits)

subsection \<open>The digest is 64 hexadecimal digits\<close>

lemma length_sha_round: "length v = 8 \<Longrightarrow> length (sha_round v kw) = 8"
  by (auto simp: sha_round_def Let_def split: list.splits)

lemma length_foldl_sha_round: "length v = 8 \<Longrightarrow> length (foldl sha_round v kws) = 8"
  by (induction kws arbitrary: v) (simp_all add: length_sha_round)

lemma length_sha_block: "length hs = 8 \<Longrightarrow> length (sha_block hs block) = 8"
  by (simp add: sha_block_def Let_def length_foldl_sha_round)

lemma length_foldl_sha_block: "length hs = 8 \<Longrightarrow> length (foldl sha_block hs blocks) = 8"
  by (induction blocks arbitrary: hs) (simp_all add: length_sha_block)

lemma length_sha256_words: "length (sha256_words msg) = 8"
  by (simp add: sha256_words_def Let_def length_foldl_sha_block sha_H0_def)

lemma length_hex_word: "length (hex_word w) = 8"
  by (simp add: hex_word_def)

lemma hex_value_hex_digit:
  assumes "n < 16"
  shows "hex_value (hex_digit n) \<noteq> None"
proof -
  have "\<forall>c \<in> set ''0123456789abcdef''. hex_value c \<noteq> None"
    by (simp add: hex_value_def)
  moreover have "hex_digit n \<in> set ''0123456789abcdef''"
    unfolding hex_digit_def using assms by (intro nth_mem) simp
  ultimately show ?thesis by blast
qed

lemma nibble_less: "unat ((x :: 32 word) AND 0xF) < 16"
proof -
  have "x AND 0xF \<le> 0xF" by (rule word_and_le1)
  then show ?thesis by (simp add: word_le_nat_alt)
qed

lemma hex_word_digits: "list_all (\<lambda>c. hex_value c \<noteq> None) (hex_word w)"
  using hex_value_hex_digit nibble_less by (auto simp: hex_word_def list_all_iff)

lemma length_hexdigest: "length (sha256_hexdigest msg) = 64"
proof -
  obtain a b c d e f g h where "sha256_words msg = [a, b, c, d, e, f, g, h]"
    using length_sha256_words [of msg]
    by (auto simp: length_Suc_conv eval_nat_numeral)
  then show ?thesis by (simp add: sha256_hexdigest_def length_hex_word)
qed

lemma hexdigest_digits: "list_all (\<lambda>c. hex_value c \<noteq> None) (sha256_hexdigest msg)"
  by (simp add: sha256_hexdigest_def list_all_iff)
    (use hex_word_digits in \<open>auto simp: list_all_iff\<close>)

lemma hex_fold_nonneg:
  "list_all (\<lambda>c. hex_value c \<noteq> None) s \<Longrightarrow> 0 \<le> a \<Longrightarrow>
     0 \<le> foldl (\<lambda>acc c. 16 * acc + the (hex_value c)) a s"
proof (induction s arbitrary: a)
  case Nil
  then show ?case by simp
next
  case (Cons c s)
  have "0 \<le> the (hex_value c)"
    using Cons.prems(1) by (auto simp: hex_value_def Let_def split: if_splits)
  then show ?case using Cons by simp
qed

lemma prefix_hex: "\<exists>v. int_base16 (take 8 (sha256_hexdigest msg)) = Inr v \<and> 0 \<le> v"
proof -
  let ?p = "take 8 (sha256_hexdigest msg)"
  have d: "list_all (\<lambda>c. hex_value c \<noteq> None) ?p"
    using hexdigest_digits [of msg] by (auto simp: list_all_iff dest: in_set_takeD)
  have "length ?p = 8" by (simp add: length_hexdigest)
  then have ne: "?p \<noteq> []" by auto
  show ?thesis using d ne hex_fold_nonneg [OF d, of 0]
    by (simp add: int_base16_def)
qed

subsection \<open>The calendar\<close>

lemma isleap_gregorian: "isleap y \<longleftrightarrow> gregorian_leap_year y"
proof -
  have "4 dvd y" if "400 dvd y"
    using that by (rule dvd_trans [of 4 400, rotated]) simp
  then show ?thesis
    unfolding isleap_def gregorian_leap_year_def mod_eq_0_iff_dvd by blast
qed

lemma monthrange_days_gregorian:
  assumes "monthrange_days y m = Inr d"
  shows "d = gregorian_days y m \<and> 28 \<le> d \<and> d \<le> 31 \<and> 1 \<le> m \<and> m \<le> 12"
proof -
  have range: "1 \<le> m" "m \<le> 12"
    using assms by (auto simp: monthrange_days_def split: if_splits)
  then have "m = 1 \<or> m = 2 \<or> m = 3 \<or> m = 4 \<or> m = 5 \<or> m = 6 \<or> m = 7 \<or> m = 8
      \<or> m = 9 \<or> m = 10 \<or> m = 11 \<or> m = 12" by arith
  then have "d = gregorian_days y m \<and> 28 \<le> d \<and> d \<le> 31"
    using assms unfolding monthrange_days_def mdays_def gregorian_days_def isleap_gregorian
    by (elim disjE) auto
  with range show ?thesis by simp
qed

lemma monthrange_days_total:
  "1 \<le> m \<Longrightarrow> m \<le> 12 \<Longrightarrow> \<exists>d. monthrange_days y m = Inr d"
  by (simp add: monthrange_days_def)

lemma next_month_legal:
  "0 \<le> lm \<Longrightarrow> 1 \<le> fst (next_month_year lm ly) \<and> fst (next_month_year lm ly) \<le> 12"
  by (simp add: next_month_year_def Let_def)

subsection \<open>What a returned selection is made of, and when one is returned\<close>

lemma select_day_InrD:
  assumes "select_day rs = Inr r"
  shows "\<exists>t lm ly d v. anchor_time rs = Inr t \<and> anchor_month_year t = Inr (lm, ly)
           \<and> monthrange_days (snd (next_month_year lm ly)) (fst (next_month_year lm ly)) = Inr d
           \<and> int_base16 (take 8 (sha256_hexdigest (encode_utf8 (full_string rs)))) = Inr v
           \<and> r = \<lparr> rows = length rs, last_date = t,
                    next_month = zfill 2 (str_int (fst (next_month_year lm ly))) @ ''/''
                                   @ str_int (snd (next_month_year lm ly)),
                    days_in_month = d,
                    sha256 = sha256_hexdigest (encode_utf8 (full_string rs)),
                    prefix = take 8 (sha256_hexdigest (encode_utf8 (full_string rs))),
                    int_val = v,
                    predicted_day = v mod d + 1,
                    result = ''Best Purchase Day Next Month: '' @ zfill 2 (str_int (v mod d + 1))
                               @ ''-'' @ zfill 2 (str_int (fst (next_month_year lm ly)))
                               @ ''-'' @ str_int (snd (next_month_year lm ly)) \<rparr>"
  using assms unfolding select_day_def Let_def
  by (auto split: sum.splits prod.splits)

lemma select_day_returns:
  assumes "anchor_time rs = Inr t" and "anchor_month_year t = Inr (lm, ly)" and "0 \<le> lm"
  shows "\<exists>r. select_day rs = Inr r \<and> last_date r = t
           \<and> next_month r = zfill 2 (str_int (fst (next_month_year lm ly))) @ ''/''
                               @ str_int (snd (next_month_year lm ly))"
proof -
  obtain nm ny where n: "next_month_year lm ly = (nm, ny)"
    by (cases "next_month_year lm ly") auto
  have "1 \<le> nm" "nm \<le> 12" using next_month_legal [OF assms(3), of ly] n by simp_all
  then obtain d where d: "monthrange_days ny nm = Inr d"
    using monthrange_days_total by blast
  obtain v where v: "int_base16 (take 8 (sha256_hexdigest (encode_utf8 (full_string rs)))) = Inr v"
    using prefix_hex by blast
  show ?thesis
    by (simp add: select_day_def assms(1,2) n d v Let_def)
qed

lemma select_day_returns_iff:
  "(\<exists>r. select_day rs = Inr r) \<longleftrightarrow>
     (\<exists>t lm ly. anchor_time rs = Inr t \<and> anchor_month_year t = Inr (lm, ly) \<and> 0 \<le> lm)"
proof
  assume "\<exists>r. select_day rs = Inr r"
  then obtain r where "select_day rs = Inr r" ..
  from select_day_InrD [OF this] obtain t lm ly d where
    t: "anchor_time rs = Inr t" "anchor_month_year t = Inr (lm, ly)"
    and d: "monthrange_days (snd (next_month_year lm ly)) (fst (next_month_year lm ly)) = Inr d"
    by blast
  have "1 \<le> fst (next_month_year lm ly)"
    using monthrange_days_gregorian [OF d] by simp
  then have "0 \<le> lm"
    by (simp add: next_month_year_def Let_def split: if_splits)
  with t show "\<exists>t lm ly. anchor_time rs = Inr t \<and> anchor_month_year t = Inr (lm, ly) \<and> 0 \<le> lm"
    by blast
next
  assume "\<exists>t lm ly. anchor_time rs = Inr t \<and> anchor_month_year t = Inr (lm, ly) \<and> 0 \<le> lm"
  then show "\<exists>r. select_day rs = Inr r"
    using select_day_returns by blast
qed

subsection \<open>One run, evaluated\<close>

lemma example_run:
  "compute_best_day (''time'' @ [CHR 0x0A] @ ''09/02/2026'') =
     Inr \<lparr> rows = 1, last_date = ''09/02/2026'', next_month = ''03/2026'', days_in_month = 31,
           sha256 = ''9bf814d0cfaf9b86e1bee1be9b528d9f266ece96d35a7f1e46f53089c1e6c920'',
           prefix = ''9bf814d0'', int_val = 2616726736, predicted_day = 28,
           result = ''Best Purchase Day Next Month: 28-03-2026'' \<rparr>"
  by code_simp

subsection \<open>The canonical string\<close>






lemma distinct_HASH_COLUMNS: "distinct HASH_COLUMNS"
  by (simp add: HASH_COLUMNS_def)

lemma time_in_schema: "''time'' \<in> set HASH_COLUMNS"
  by (simp add: HASH_COLUMNS_def)

subsection \<open>Exceptions of the conversions, and the sort\<close>

lemma parse_date_key_sentinel:
  "length (split CHR ''/'' (strip t)) \<noteq> 3 \<or> length (split CHR ''/'' (strip t) ! 2) \<noteq> 4
     \<Longrightarrow> parse_date_key t = Inr (0, 0, 0)"
  by (auto simp: parse_date_key_def Let_def)

lemma py_int_error: "py_int s = Inl e \<Longrightarrow> e = ValueError"
  by (auto simp: py_int_def Let_def split: if_splits)

lemma parse_date_key_error: "parse_date_key t = Inl e \<Longrightarrow> e = ValueError"
  by (auto simp: parse_date_key_def Let_def split: if_splits sum.splits dest: py_int_error)

lemma first_error_Inl: "first_error xs = Inl e \<Longrightarrow> Inl e \<in> set xs"
proof (induction xs)
  case Nil
  then show ?case by simp
next
  case (Cons x xs)
  then show ?case by (cases x) (auto split: sum.splits)
qed

lemma first_error_Inr: "first_error xs = Inr ys \<Longrightarrow> xs = map Inr ys"
proof (induction xs arbitrary: ys)
  case Nil
  then show ?case by simp
next
  case (Cons x xs)
  then show ?case by (cases x) (auto split: sum.splits)
qed

lemma first_error_map_Inr: "first_error (map Inr ys) = Inr ys"
  by (induction ys) simp_all

lemma first_error_ex_Inl: "Inl e \<in> set xs \<Longrightarrow> \<exists>e'. first_error xs = Inl e'"
proof (induction xs)
  case Nil
  then show ?case by simp
next
  case (Cons x xs)
  then show ?case by (cases x) (auto split: sum.splits)
qed

text \<open>Sorting the pairs of key and row by the key is sorting the rows by their key.\<close>

lemma sort_key_fst_zip_map:
  "map snd (sort_key fst (zip (map k xs) xs)) = sort_key k xs"
proof -
  have ins: "insort_key fst (k x, x) (map (\<lambda>r. (k r, r)) ys) = map (\<lambda>r. (k r, r)) (insort_key k x ys)"
    for x ys by (induction ys) simp_all
  have "sort_key fst (map (\<lambda>r. (k r, r)) xs) = map (\<lambda>r. (k r, r)) (sort_key k xs)"
    by (induction xs) (simp_all add: ins)
  moreover have "zip (map k xs) xs = map (\<lambda>r. (k r, r)) xs"
    by (induction xs) simp_all
  ultimately show ?thesis by (simp add: comp_def)
qed

lemma first_error_length: "first_error xs = Inr ys \<Longrightarrow> length ys = length xs"
proof (induction xs arbitrary: ys)
  case Nil
  then show ?case by simp
next
  case (Cons x xs)
  then show ?case by (cases x) (auto split: sum.splits)
qed

lemma sort_rows_Inr:
  assumes "first_error (map row_key rs) = Inr ks"
  shows "sort_rows rs = Inr (sort_key the_key rs)" and "ks = map the_key rs"
proof -
  have m: "map row_key rs = map Inr ks" using first_error_Inr [OF assms] .
  then have "length ks = length rs" by (metis length_map)
  then show ks: "ks = map the_key rs"
    using m by (auto simp: list_eq_iff_nth_eq the_key_def dest!: arg_cong [where f = "\<lambda>l. l ! _"])
  show "sort_rows rs = Inr (sort_key the_key rs)"
    using assms by (simp add: sort_rows_def ks [symmetric]) (simp add: ks sort_key_fst_zip_map)
qed


lemma row_key_raises:
  assumes "length (split CHR ''/'' (strip (dict_get r ''time''))) = 3"
    and "length (split CHR ''/'' (strip (dict_get r ''time'')) ! 2) = 4"
    and "py_int (split CHR ''/'' (strip (dict_get r ''time'')) ! 0) = Inl e"
  shows "row_key r = Inl ValueError"
  using assms py_int_error
  by (auto simp: row_key_def parse_date_key_def Let_def split: sum.splits)

lemma sort_rows_raises:
  assumes "r \<in> set rs" and "row_key r = Inl e"
  shows "sort_rows rs = Inl ValueError"
proof -
  have "Inl e \<in> set (map row_key rs)" using assms by force
  then obtain e' where e': "first_error (map row_key rs) = Inl e'"
    using first_error_ex_Inl by blast
  from first_error_Inl [OF e'] have "e' = ValueError"
    by (auto simp: row_key_def dest: parse_date_key_error [OF sym])
  then show ?thesis using e' by (simp add: sort_rows_def)
qed

lemma sort_rows_permutation:
  assumes "mset rs' = mset rs" and "distinct (map row_key rs)"
  shows "sort_rows rs' = sort_rows rs"
proof (cases "first_error (map row_key rs)")
  case (Inl e)
  have set: "set rs' = set rs" using assms(1) by (rule mset_eq_setD)
  from first_error_Inl [OF Inl] have "Inl e \<in> set (map row_key rs')"
    using set by auto
  then obtain e' where e': "first_error (map row_key rs') = Inl e'"
    using first_error_ex_Inl by blast
  from first_error_Inl [OF e'] have "e' = ValueError"
    by (auto simp: row_key_def dest: parse_date_key_error [OF sym])
  moreover from first_error_Inl [OF Inl] have "e = ValueError"
    by (auto simp: row_key_def dest: parse_date_key_error [OF sym])
  ultimately show ?thesis using Inl e' by (simp add: sort_rows_def)
next
  case (Inr ks)
  have set: "set rs' = set rs" using assms(1) by (rule mset_eq_setD)
  have all: "\<forall>r \<in> set rs. row_key r = Inr (the_key r)"
  proof
    fix r assume "r \<in> set rs"
    then have "row_key r \<in> set (map row_key rs)" by simp
    then have "row_key r \<in> set (map Inr ks)"
      using first_error_Inr [OF Inr] by simp
    then show "row_key r = Inr (the_key r)" by (auto simp: the_key_def)
  qed
  then have "map row_key rs' = map Inr (map the_key rs')"
    using set by simp
  then have Inr': "first_error (map row_key rs') = Inr (map the_key rs')"
    by (simp only: first_error_map_Inr)
  have "inj_on the_key (set rs)"
  proof (rule inj_onI)
    fix a b assume "a \<in> set rs" "b \<in> set rs" "the_key a = the_key b"
    then have "row_key a = row_key b" using all by simp
    moreover have "inj_on row_key (set rs)"
      using assms(2) by (simp add: distinct_map)
    ultimately show "a = b" using \<open>a \<in> set rs\<close> \<open>b \<in> set rs\<close> by (auto dest: inj_onD)
  qed
  then have "inj_on the_key (set rs')" using set by simp
  then have "sort_key the_key rs' = sort_key the_key rs"
    using assms(1) by (intro sort_key_inj_key_eq) simp_all
  then show ?thesis
    using sort_rows_Inr(1) [OF Inr] sort_rows_Inr(1) [OF Inr'] by simp
qed

lemma sort_rows_stable_permutation:
  assumes "mset rs' = mset rs"
    and "\<forall>r \<in> set rs. filter (\<lambda>x. row_key x = row_key r) rs'
                          = filter (\<lambda>x. row_key x = row_key r) rs"
  shows "sort_rows rs' = sort_rows rs"
proof (cases "first_error (map row_key rs)")
  case (Inl e)
  have set: "set rs' = set rs" using assms(1) by (rule mset_eq_setD)
  from first_error_Inl [OF Inl] obtain r where "r \<in> set rs" "row_key r = Inl e"
    by auto
  then have "r \<in> set rs'" using set by simp
  from sort_rows_raises [OF \<open>r \<in> set rs\<close> \<open>row_key r = Inl e\<close>]
    sort_rows_raises [OF this \<open>row_key r = Inl e\<close>]
  show ?thesis by simp
next
  case (Inr ks)
  have set: "set rs' = set rs" using assms(1) by (rule mset_eq_setD)
  have all: "row_key r = Inr (the_key r)" if "r \<in> set rs" for r
  proof -
    have "row_key r \<in> set (map row_key rs)" using that by simp
    then have "row_key r \<in> set (map Inr ks)"
      using first_error_Inr [OF Inr] by simp
    then show ?thesis by (auto simp: the_key_def)
  qed
  then have "map row_key rs' = map Inr (map the_key rs')"
    using set by simp
  then have Inr': "first_error (map row_key rs') = Inr (map the_key rs')"
    by (simp only: first_error_map_Inr)
  have same: "(row_key x = row_key r) = (the_key r = the_key x)"
    if "x \<in> set rs" "r \<in> set rs" for x r
    using all [OF that(1)] all [OF that(2)] by auto
  have "sort_key the_key rs' = sort_key the_key rs"
  proof (rule properties_for_sort_key)
    show "mset (sort_key the_key rs) = mset rs'" using assms(1) by simp
    show "sorted (map the_key (sort_key the_key rs))" by simp
  next
    fix k assume "k \<in> set (sort_key the_key rs)"
    then have k: "k \<in> set rs" by simp
    have "filter (\<lambda>x. the_key k = the_key x) (sort_key the_key rs)
        = filter (\<lambda>x. the_key k = the_key x) rs"
      using sort_key_stable [of the_key "the_key k" rs] by (simp add: eq_commute)
    also have "\<dots> = filter (\<lambda>x. row_key x = row_key k) rs"
      using same [OF _ k] by (intro filter_cong) auto
    also have "\<dots> = filter (\<lambda>x. row_key x = row_key k) rs'"
      using assms(2) k by simp
    also have "\<dots> = filter (\<lambda>x. the_key k = the_key x) rs'"
      using same [OF _ k] set by (intro filter_cong) auto
    finally show "filter (\<lambda>x. the_key k = the_key x) (sort_key the_key rs)
        = filter (\<lambda>x. the_key k = the_key x) rs'" .
  qed
  then show ?thesis
    using sort_rows_Inr(1) [OF Inr] sort_rows_Inr(1) [OF Inr'] by simp
qed

subsection \<open>Rows that agree on the schema\<close>

lemma agree_row_key: "agree_on_schema r r' \<Longrightarrow> row_key r = row_key r'"
  using time_in_schema by (auto simp: agree_on_schema_def list_all_iff row_key_def dict_get_def)

lemma agree_row_string: "agree_on_schema r r' \<Longrightarrow> row_string r = row_string r'"
  by (auto simp: agree_on_schema_def list_all_iff row_string_def dict_get_def
      intro!: arg_cong [where f = "join '',''"])

lemma agree_full_string:
  "list_all2 agree_on_schema rs rs' \<Longrightarrow> full_string rs = full_string rs'"
proof -
  assume "list_all2 agree_on_schema rs rs'"
  then have "map row_string rs = map row_string rs'"
    by (induction rule: list_all2_induct) (simp_all add: agree_row_string)
  then show ?thesis by (simp add: full_string_def)
qed

lemma agree_anchor_time:
  assumes "list_all2 agree_on_schema rs rs'"
  shows "anchor_time rs = anchor_time rs'"
proof (cases "rs = []")
  case True
  then show ?thesis using assms by simp
next
  case False
  then have ne: "rs' \<noteq> []" using assms by auto
  have "agree_on_schema (last rs) (last rs')"
    using assms False ne by (simp add: list_all2_conv_all_nth last_conv_nth)
  then have "map_of (last rs) ''time'' = map_of (last rs') ''time''"
    using time_in_schema by (auto simp: agree_on_schema_def list_all_iff)
  then show ?thesis using False ne by (simp add: anchor_time_def)
qed

lemma agree_select_day:
  assumes "list_all2 agree_on_schema rs rs'"
  shows "select_day rs = select_day rs'"
  unfolding select_day_def agree_anchor_time [OF assms] agree_full_string [OF assms]
    list_all2_lengthD [OF assms] ..

text \<open>The stable sort moves related lists in step when the keys are the same.\<close>

lemma insort_key_all2:
  assumes "list_all2 R xs ys" "R x y" "\<And>a b. R a b \<Longrightarrow> f a = g b"
  shows "list_all2 R (insort_key f x xs) (insort_key g y ys)"
  using assms(1)
proof (induction rule: list_all2_induct)
  case Nil
  then show ?case using assms(2) by simp
next
  case (Cons a as b bs)
  have "f a = g b" "f x = g y" using Cons.hyps(1) assms(2,3) by auto
  then show ?case using Cons assms(2) by simp
qed

lemma sort_key_all2:
  assumes "list_all2 R xs ys" "\<And>a b. R a b \<Longrightarrow> f a = g b"
  shows "list_all2 R (sort_key f xs) (sort_key g ys)"
  using assms(1)
proof (induction rule: list_all2_induct)
  case Nil
  then show ?case by simp
next
  case (Cons a as b bs)
  then show ?case using assms(2) by (simp add: insort_key_all2)
qed

lemma agree_sort_rows:
  assumes "list_all2 agree_on_schema rs rs'"
  shows "(\<exists>e. sort_rows rs = Inl e \<and> sort_rows rs' = Inl e)
       \<or> (\<exists>s s'. sort_rows rs = Inr s \<and> sort_rows rs' = Inr s' \<and> list_all2 agree_on_schema s s')"
proof -
  have keys: "map row_key rs = map row_key rs'"
    using assms by (induction rule: list_all2_induct) (simp_all add: agree_row_key)
  show ?thesis
  proof (cases "first_error (map row_key rs)")
    case (Inl e)
    then show ?thesis using keys by (simp add: sort_rows_def)
  next
    case (Inr ks)
    have len: "length ks = length rs" using first_error_length [OF Inr] by simp
    let ?R = "\<lambda>p q. fst p = fst q \<and> agree_on_schema (snd p) (snd q)"
    have "list_all2 ?R (zip ks rs) (zip ks rs')"
      using assms len by (auto simp: list_all2_conv_all_nth)
    then have "list_all2 ?R (sort_key fst (zip ks rs)) (sort_key fst (zip ks rs'))"
      by (rule sort_key_all2) simp
    then have "list_all2 agree_on_schema (map snd (sort_key fst (zip ks rs)))
        (map snd (sort_key fst (zip ks rs')))"
      by (simp add: list_all2_map1 list_all2_map2 list_all2_mono)
    then show ?thesis using Inr keys by (simp add: sort_rows_def)
  qed
qed

subsection \<open>Reading the anchor time\<close>

lemma anchor_month_year_Inr_iff:
  "anchor_month_year t = Inr (m, y) \<longleftrightarrow>
     3 \<le> length (split CHR ''/'' t) \<and> py_int (split CHR ''/'' t ! 1) = Inr m
       \<and> py_int (split CHR ''/'' t ! 2) = Inr y"
  by (auto simp: anchor_month_year_def Let_def split: sum.splits)

lemma anchor_month_year_Inl_iff:
  "(\<exists>e. anchor_month_year t = Inl e) \<longleftrightarrow>
     length (split CHR ''/'' t) < 3 \<or> (\<exists>e. py_int (split CHR ''/'' t ! 1) = Inl e)
       \<or> (\<exists>e. py_int (split CHR ''/'' t ! 2) = Inl e)"
  by (auto simp: anchor_month_year_def Let_def split: sum.splits)

subsection \<open>Blanks around cells\<close>

lemma rstrip_Cons:
  "rstrip (x # xs) = (if rstrip xs = [] \<and> is_space x then [] else x # rstrip xs)"
  by (auto simp: rstrip_def dropWhile_append)

lemma lstrip_rstrip: "lstrip (rstrip s) = rstrip (lstrip s)"
proof (induction s)
  case Nil
  then show ?case by (simp add: lstrip_def rstrip_def)
next
  case (Cons x xs)
  show ?case
  proof (cases "is_space x")
    case True
    then show ?thesis using Cons
      by (auto simp: rstrip_Cons) (auto simp: lstrip_def rstrip_def)
  next
    case False
    then show ?thesis by (simp add: rstrip_Cons) (simp add: lstrip_def rstrip_Cons)
  qed
qed

lemma strip_rev: "strip (rev s) = rev (strip s)"
proof -
  have "strip (rev s) = rstrip (lstrip (rev s))" by (simp add: strip_def)
  also have "\<dots> = rev (lstrip (rstrip s))" by (simp add: rstrip_def lstrip_def)
  also have "\<dots> = rev (strip s)" by (simp add: lstrip_rstrip strip_def)
  finally show ?thesis .
qed

lemma strip_idem: "strip (strip s) = strip s"
proof -
  have "strip (strip s) = rstrip (rstrip (lstrip (lstrip s)))"
    by (simp add: strip_def lstrip_rstrip)
  then show ?thesis by (simp add: strip_def lstrip_def rstrip_def)
qed

lemma strip_Cons_space: "is_space c \<Longrightarrow> strip (c # s) = strip s"
  by (simp add: strip_def lstrip_def)

lemma strip_Cons_nonspace: "\<not> is_space c \<Longrightarrow> strip (c # s) \<noteq> []"
  by (simp add: strip_def lstrip_def rstrip_Cons)

lemma split_snoc:
  "split c (s @ [x]) =
     (if x = c then split c s @ [[]] else butlast (split c s) @ [last (split c s) @ [x]])"
proof (induction s)
  case Nil
  then show ?case by simp
next
  case (Cons a s)
  obtain p ps where ps: "split c s = p # ps"
    using split_not_Nil [of c s] by (cases "split c s") auto
  obtain q qs where qs: "split c (s @ [x]) = q # qs"
    using split_not_Nil [of c "s @ [x]"] by (cases "split c (s @ [x])") auto
  show ?case using Cons ps qs
    by (cases ps) (auto split: if_splits)
qed

lemma split_rev: "split c (rev s) = rev (map rev (split c s))"
proof (induction s)
  case Nil
  then show ?case by simp
next
  case (Cons x s)
  obtain p ps where ps: "split c s = p # ps"
    using split_not_Nil [of c s] by (cases "split c s") auto
  show ?case using Cons ps by (simp add: split_snoc)
qed

lemma line_cells_rev: "line_cells (rev l) = rev (map rev (line_cells l))"
  by (simp add: line_cells_def split_rev rev_map strip_rev)


text \<open>A line that the reader sees as one empty cell.\<close>

lemma line_cells_Nil: "line_cells [] = [[]]"
  by (simp add: line_cells_def strip_def lstrip_def rstrip_def)

lemma LF_space: "is_space CHR 0x0A"
  by (simp add: is_space_def)

lemma comma_not_space: "\<not> is_space CHR '',''"
  by (simp add: is_space_def)

lemma line_cells_Cons_space:
  assumes "is_space c"
  shows "line_cells (c # l) = line_cells l"
proof -
  have "c \<noteq> CHR '',''" using assms comma_not_space by auto
  moreover obtain p ps where "split CHR '','' l = p # ps"
    using split_not_Nil [of "CHR '',''" l] by (cases "split CHR '','' l") auto
  ultimately show ?thesis using assms by (simp add: line_cells_def strip_Cons_space)
qed

lemma line_cells_Cons_nonspace:
  assumes "\<not> is_space c"
  shows "line_cells (c # l) \<noteq> [[]]"
proof -
  obtain p ps where ps: "split CHR '','' l = p # ps"
    using split_not_Nil [of "CHR '',''" l] by (cases "split CHR '','' l") auto
  show ?thesis
  proof (cases "c = CHR '',''")
    case True
    then show ?thesis using ps by (simp add: line_cells_def)
  next
    case False
    then show ?thesis using ps assms by (simp add: line_cells_def strip_Cons_nonspace)
  qed
qed

lemma cells_lstrip:
  "map line_cells (split CHR 0x0A (lstrip s))
     = drop_blank_lines (map line_cells (split CHR 0x0A s))"
proof (induction s)
  case Nil
  then show ?case by (simp add: lstrip_def drop_blank_lines_def line_cells_Nil)
next
  case (Cons c s)
  obtain l ls where ls: "split CHR 0x0A s = l # ls"
    using split_not_Nil [of "CHR 0x0A" s] by (cases "split CHR 0x0A s") auto
  show ?case
  proof (cases "is_space c")
    case True
    have l: "lstrip (c # s) = lstrip s" using True by (simp add: lstrip_def)
    show ?thesis
    proof (cases "c = CHR 0x0A")
      case True
      then show ?thesis using Cons l
        by (simp add: drop_blank_lines_def line_cells_Nil)
    next
      case False
      then show ?thesis using Cons l ls True
        by (simp add: line_cells_Cons_space)
    qed
  next
    case False
    then have c: "c \<noteq> CHR 0x0A" using LF_space by auto
    have "lstrip (c # s) = c # s" using False by (simp add: lstrip_def)
    then show ?thesis using c ls line_cells_Cons_nonspace [OF False, of l]
      by (simp add: drop_blank_lines_def)
  qed
qed

lemma cells_rev:
  "map line_cells (split CHR 0x0A (rev s))
     = rev (map (\<lambda>l. rev (map rev l)) (map line_cells (split CHR 0x0A s)))"
  by (simp add: split_rev rev_map line_cells_rev comp_def)

lemma cells_strip_cong:
  assumes "map line_cells (split CHR 0x0A s) = map line_cells (split CHR 0x0A s')"
  shows "map line_cells (split CHR 0x0A (strip s)) = map line_cells (split CHR 0x0A (strip s'))"
proof -
  have 1: "map line_cells (split CHR 0x0A (lstrip s)) = map line_cells (split CHR 0x0A (lstrip s'))"
    using assms by (simp only: cells_lstrip)
  then have 2: "map line_cells (split CHR 0x0A (rev (lstrip s)))
      = map line_cells (split CHR 0x0A (rev (lstrip s')))"
    by (simp only: cells_rev)
  then have 3: "map line_cells (split CHR 0x0A (lstrip (rev (lstrip s))))
      = map line_cells (split CHR 0x0A (lstrip (rev (lstrip s'))))"
    by (simp only: cells_lstrip)
  then have "map line_cells (split CHR 0x0A (rev (lstrip (rev (lstrip s)))))
      = map line_cells (split CHR 0x0A (rev (lstrip (rev (lstrip s')))))"
    by (simp only: cells_rev)
  then show ?thesis by (simp add: strip_def rstrip_def lstrip_def)
qed


lemma split_no_sep: "c \<notin> set s \<Longrightarrow> split c s = [s]"
  by (induction s) auto

lemma split_append_sep: "c \<notin> set p \<Longrightarrow> split c (p @ c # s) = p # split c s"
  by (induction p) auto

lemma split_join:
  assumes "xs \<noteq> []" and "\<forall>x \<in> set xs. c \<notin> set x"
  shows "split c (join [c] xs) = xs"
  using assms
proof (induction "[c]" xs rule: join.induct)
  case 1
  then show ?case by simp
next
  case (2 p)
  then show ?case by (simp add: split_no_sep)
next
  case (3 p q ps)
  then show ?case by (simp add: split_append_sep)
qed

lemma set_join: "set (join sep xs) \<subseteq> set sep \<union> \<Union> (set ` set xs)"
  by (induction sep xs rule: join.induct) auto

lemma universal_newlines_id: "CHR 0x0D \<notin> set s \<Longrightarrow> universal_newlines s = s"
  by (induction s) auto

lemma render_table_no_CR:
  assumes "table_ok a"
  shows "CHR 0x0D \<notin> set (render_table a)"
proof
  assume "CHR 0x0D \<in> set (render_table a)"
  then have "CHR 0x0D \<in> \<Union> (set ` set (map (join '','') a))"
    using set_join [of "[CHR 0x0A]" "map (join '','') a"] by (auto simp: render_table_def)
  then obtain cs where cs: "cs \<in> set a" "CHR 0x0D \<in> set (join '','' cs)" by auto
  then have "CHR 0x0D \<in> \<Union> (set ` set cs)"
    using set_join [of "'',''" cs] by auto
  then show False
    using assms cs(1) by (auto simp: table_ok_def list_all_iff cell_ok_def)
qed

lemma cells_render:
  assumes "table_ok a"
  shows "map line_cells (split CHR 0x0A (render_table a)) = map (map strip) a"
proof -
  have lines: "\<forall>l \<in> set (map (join '','') a). CHR 0x0A \<notin> set l"
  proof
    fix l assume "l \<in> set (map (join '','') a)"
    then obtain cs where cs: "cs \<in> set a" "l = join '','' cs" by auto
    then have "\<forall>x \<in> set cs. CHR 0x0A \<notin> set x"
      using assms by (auto simp: table_ok_def list_all_iff cell_ok_def)
    then show "CHR 0x0A \<notin> set l"
      using set_join [of "'',''" cs] cs(2) by auto
  qed
  have "a \<noteq> []" using assms by (simp add: table_ok_def)
  then have "split CHR 0x0A (render_table a) = map (join '','') a"
    unfolding render_table_def using lines by (intro split_join) simp_all
  moreover have "line_cells (join '','' cs) = map strip cs" if "cs \<in> set a" for cs
  proof -
    have "cs \<noteq> []" "\<forall>x \<in> set cs. CHR '','' \<notin> set x"
      using assms that by (auto simp: table_ok_def list_all_iff cell_ok_def)
    then show ?thesis by (simp add: line_cells_def split_join)
  qed
  ultimately show ?thesis by simp
qed

lemma same_up_to_blanks_map:
  "same_up_to_blanks a b \<Longrightarrow> map (map strip) a = map (map strip) b"
  unfolding same_up_to_blanks_def
proof (induction rule: list_all2_induct)
  case Nil
  then show ?case by simp
next
  case (Cons x xs y ys)
  from Cons.hyps(1) have "map strip x = map strip y"
    by (induction rule: list_all2_induct) simp_all
  then show ?case using Cons by simp
qed

lemma make_row_cong:
  assumes "map strip vals = map strip vals'"
  shows "make_row header vals = make_row header vals'"
proof -
  have len: "length vals = length vals'"
    using assms by (metis length_map)
  have "strip (vals ! i) = strip (vals' ! i)" if "i < length vals" for i
    using that assms len by (metis nth_map)
  then have "(\<lambda>(i, h) r. dict_set h (if i < length vals then strip (vals ! i) else []) r)
      = (\<lambda>(i, h) r. dict_set h (if i < length vals' then strip (vals' ! i) else []) r)"
    using len by (auto simp: fun_eq_iff)
  then show ?thesis by (simp add: make_row_def)
qed

lemma read_rows_cong:
  assumes "map line_cells (read_lines text) = map line_cells (read_lines text')"
  shows "read_rows text = read_rows text'"
proof -
  obtain l ls where l: "read_lines text = l # ls"
    using split_not_Nil by (cases "read_lines text") (auto simp: read_lines_def)
  obtain l' ls' where l': "read_lines text' = l' # ls'"
    using split_not_Nil by (cases "read_lines text'") (auto simp: read_lines_def)
  have h: "line_cells l = line_cells l'" and t: "map line_cells ls = map line_cells ls'"
    using assms l l' by simp_all
  have hd: "read_header (read_lines text) = read_header (read_lines text')"
    using h l l' by (simp add: read_header_def line_cells_def)
  have "map (\<lambda>line. make_row hdr (split CHR '','' line)) ls
      = map (\<lambda>line. make_row hdr (split CHR '','' line)) ls'" for hdr
    using t
  proof (induction ls arbitrary: ls')
    case Nil
    then show ?case by simp
  next
    case (Cons x xs)
    then obtain y ys where y: "ls' = y # ys" by (cases ls') auto
    with Cons.prems have x: "line_cells x = line_cells y"
      and xs: "map line_cells xs = map line_cells ys"
      by simp_all
    have "make_row hdr (split CHR '','' x) = make_row hdr (split CHR '','' y)"
      using x unfolding line_cells_def by (rule make_row_cong)
    then show ?case using Cons.IH [OF xs] y by simp
  qed
  then show ?thesis using hd l l' by (simp add: read_rows_def Let_def)
qed

lemma dict_set_all:
  "list_all P r \<Longrightarrow> P (k, v) \<Longrightarrow> list_all P (dict_set k v r)"
  by (induction r) auto

lemma strip_Nil: "strip [] = []"
  by (simp add: strip_def lstrip_def rstrip_def)

lemma make_row_stripped:
  assumes "\<forall>h \<in> set header. strip h = h"
  shows "list_all (\<lambda>(k, v). strip k = k \<and> strip v = v) (make_row header vals)"
proof -
  have "list_all (\<lambda>(k, v). strip k = k \<and> strip v = v)
      (fold (\<lambda>(i, h) r. dict_set h (if i < length vals then strip (vals ! i) else []) r)
         (enumerate n header) r0)"
    if "list_all (\<lambda>(k, v). strip k = k \<and> strip v = v) r0" for n r0
    using assms that
  proof (induction header arbitrary: n r0)
    case Nil
    then show ?case by simp
  next
    case (Cons h hs)
    have "list_all (\<lambda>(k, v). strip k = k \<and> strip v = v)
        (dict_set h (if n < length vals then strip (vals ! n) else []) r0)"
      using Cons.prems by (intro dict_set_all) (simp_all add: strip_idem strip_Nil)
    then show ?case using Cons by simp
  qed
  then show ?thesis by (simp add: make_row_def)
qed

lemma read_rows_stripped:
  "list_all (list_all (\<lambda>(k, v). strip k = k \<and> strip v = v)) (read_rows text)"
proof -
  have "\<forall>h \<in> set (read_header (read_lines text)). strip h = h"
    by (auto simp: read_header_def strip_idem)
  then have "list_all (\<lambda>(k, v). strip k = k \<and> strip v = v)
      (make_row (read_header (read_lines text)) vals)" for vals
    by (rule make_row_stripped)
  then show ?thesis
    by (simp add: read_rows_def Let_def list_all_iff)
qed

section \<open>The claims\<close>

subsection \<open>C2: the selected day lies in the next month\<close>

text \<open>
  Claim C2. Whenever a selection is returned, the selected day is
  \<open>int_val mod days_in_month + 1\<close>, it lies between 1 and \<open>days_in_month\<close>, \<open>int_val\<close> is the
  base-16 value of the first eight digits of the digest, and \<open>days_in_month\<close> is the
  Gregorian day count of the month after the anchor row's month; February has 29 days in
  2028 and 28 in 2026 and 2027. (By \<open>select_day_returns_iff\<close> a selection is returned
  exactly when the anchor row's time is read and its month is not negative.)
\<close>

theorem selected_day_in_range:
  assumes "compute_best_day text = Inr r"
  shows "1 \<le> predicted_day r \<and> predicted_day r \<le> days_in_month r
       \<and> predicted_day r = int_val r mod days_in_month r + 1
       \<and> int_base16 (take 8 (sha256 r)) = Inr (int_val r)
       \<and> (\<exists>rs t lm ly. sort_rows (read_rows text) = Inr rs \<and> anchor_time rs = Inr t
             \<and> anchor_month_year t = Inr (lm, ly)
             \<and> days_in_month r
                 = gregorian_days (snd (next_month_year lm ly)) (fst (next_month_year lm ly)))
       \<and> monthrange_days 2028 2 = Inr 29 \<and> monthrange_days 2026 2 = Inr 28
       \<and> monthrange_days 2027 2 = Inr 28"
proof -
  obtain rs where rs: "sort_rows (read_rows text) = Inr rs" and sel: "select_day rs = Inr r"
    using assms by (auto simp: compute_best_day_def select_rows_def split: sum.splits)
  from select_day_InrD [OF sel] obtain t lm ly d v where
    t: "anchor_time rs = Inr t" and a: "anchor_month_year t = Inr (lm, ly)"
    and d: "monthrange_days (snd (next_month_year lm ly)) (fst (next_month_year lm ly)) = Inr d"
    and v: "int_base16 (take 8 (sha256_hexdigest (encode_utf8 (full_string rs)))) = Inr v"
    and r: "days_in_month r = d" "int_val r = v" "predicted_day r = v mod d + 1"
           "sha256 r = sha256_hexdigest (encode_utf8 (full_string rs))"
    by (elim exE conjE) simp
  from monthrange_days_gregorian [OF d]
  have g: "d = gregorian_days (snd (next_month_year lm ly)) (fst (next_month_year lm ly))"
    and pos: "28 \<le> d" "d \<le> 31" by simp_all
  have "0 \<le> v mod d" "v mod d < d" using pos by simp_all
  then have "1 \<le> predicted_day r" "predicted_day r \<le> days_in_month r"
    using r by simp_all
  moreover have "monthrange_days 2028 2 = Inr 29 \<and> monthrange_days 2026 2 = Inr 28
       \<and> monthrange_days 2027 2 = Inr 28"
    by (simp add: monthrange_days_def mdays_def isleap_def)
  ultimately show ?thesis using rs t a g r v by simp
qed

theorem selected_day_in_range_witness:
  "compute_best_day (''time'' @ [CHR 0x0A] @ ''09/02/2026'') =
     Inr \<lparr> rows = 1, last_date = ''09/02/2026'', next_month = ''03/2026'', days_in_month = 31,
           sha256 = ''9bf814d0cfaf9b86e1bee1be9b528d9f266ece96d35a7f1e46f53089c1e6c920'',
           prefix = ''9bf814d0'', int_val = 2616726736, predicted_day = 28,
           result = ''Best Purchase Day Next Month: 28-03-2026'' \<rparr>
   \<and> (1::int) \<le> 28 \<and> (28::int) \<le> 31 \<and> (28::int) = 2616726736 mod 31 + 1
   \<and> int_base16 (take 8 ''9bf814d0cfaf9b86e1bee1be9b528d9f266ece96d35a7f1e46f53089c1e6c920'')
       = Inr 2616726736"
  using example_run selected_day_in_range [OF example_run] by simp

subsection \<open>C3: the canonical string\<close>



subsection \<open>C4: month rollover\<close>

text \<open>
  Claim C4. When the anchor row's time is read as month \<open>m\<close>, one of the twelve months,
  of year \<open>y\<close>, a selection is returned and its next month is January of \<open>y + 1\<close> when
  \<open>m\<close> is 12, and month \<open>m + 1\<close> of \<open>y\<close> for any other month; the returned label
  \<open>next_month\<close> and the day count are those of that month.
\<close>

theorem month_rollover:
  assumes "sort_rows (read_rows text) = Inr rs" and "anchor_time rs = Inr t"
    and "anchor_month_year t = Inr (m, y)" and "1 \<le> m" and "m \<le> 12"
  shows "\<exists>r. compute_best_day text = Inr r
       \<and> (m = 12 \<longrightarrow> next_month_year m y = (1, y + 1)
                  \<and> next_month r = ''01/'' @ str_int (y + 1))
       \<and> (m \<noteq> 12 \<longrightarrow> next_month_year m y = (m + 1, y)
                  \<and> next_month r = zfill 2 (str_int (m + 1)) @ ''/'' @ str_int y)
       \<and> days_in_month r
           = gregorian_days (snd (next_month_year m y)) (fst (next_month_year m y))"
proof -
  have "0 \<le> m" using assms(4) by simp
  from select_day_returns [OF assms(2,3) this] obtain r where
    r: "select_day rs = Inr r"
    and nm: "next_month r = zfill 2 (str_int (fst (next_month_year m y))) @ ''/''
                              @ str_int (snd (next_month_year m y))"
    by blast
  have c: "compute_best_day text = Inr r"
    using assms(1) r by (simp add: compute_best_day_def select_rows_def)
  from select_day_InrD [OF r] obtain d where
    d: "monthrange_days (snd (next_month_year m y)) (fst (next_month_year m y)) = Inr d"
    and dr: "days_in_month r = d"
    using assms(2,3) by (elim exE conjE) simp
  have g: "days_in_month r
      = gregorian_days (snd (next_month_year m y)) (fst (next_month_year m y))"
    using monthrange_days_gregorian [OF d] dr by simp
  have one: "zfill 2 (str_int 1) = ''01''" by code_simp
  have dec: "next_month_year 12 y = (1, y + 1)"
    by (simp add: next_month_year_def)
  have other: "next_month_year m y = (m + 1, y)" if "m \<noteq> 12"
    using that assms(5) by (simp add: next_month_year_def)
  show ?thesis
  proof (cases "m = 12")
    case True
    then show ?thesis using c g nm dec one by auto
  next
    case False
    then show ?thesis using c g nm other [OF False] by auto
  qed
qed

text \<open>A last row of December 2026: the next month is January 2027.\<close>

theorem month_rollover_witness:
  "sort_rows (read_rows (''time'' @ [CHR 0x0A] @ ''15/12/2026''))
     = Inr [[(''time'', ''15/12/2026'')]]
   \<and> anchor_time [[(''time'', ''15/12/2026'')]] = Inr ''15/12/2026''
   \<and> anchor_month_year ''15/12/2026'' = Inr (12, 2026)
   \<and> (\<exists>r. compute_best_day (''time'' @ [CHR 0x0A] @ ''15/12/2026'') = Inr r
          \<and> next_month_year 12 2026 = (1, 2027) \<and> next_month r = ''01/2027'')"
proof -
  have s: "sort_rows (read_rows (''time'' @ [CHR 0x0A] @ ''15/12/2026''))
     = Inr [[(''time'', ''15/12/2026'')]]"
    by code_simp
  have a: "anchor_time [[(''time'', ''15/12/2026'')]] = Inr ''15/12/2026''"
    by code_simp
  have p: "anchor_month_year ''15/12/2026'' = Inr (12, 2026)"
    by code_simp
  have n: "''01/'' @ str_int (2026 + 1) = ''01/2027''"
    by code_simp
  from month_rollover [OF s a p] obtain r where
    "compute_best_day (''time'' @ [CHR 0x0A] @ ''15/12/2026'') = Inr r"
    "next_month_year 12 2026 = (1, 2027)" "next_month r = ''01/2027''"
    unfolding n by auto
  with s a p show ?thesis by blast
qed

subsection \<open>C5: the order of the rows in the file\<close>

text \<open>
  Claim C5, as the code has it. The sort is stable: rows with the same date key stay in
  file order. So a permutation of the rows that keeps the rows of each date key in their
  order is absorbed by the sort and gives the same sorted rows and the same outcome; this
  is every permutation when no two rows have the same date key. A permutation that
  changes the order of two rows of one date is not absorbed, although every row keeps
  its time: the canonical string follows the file order of such rows.
\<close>

theorem stable_permutation_absorbed:
  assumes "mset rs' = mset rs"
    and "\<forall>r \<in> set rs. filter (\<lambda>x. row_key x = row_key r) rs'
                          = filter (\<lambda>x. row_key x = row_key r) rs"
  shows "sort_rows rs' = sort_rows rs \<and> select_rows rs' = select_rows rs"
proof -
  have "sort_rows rs' = sort_rows rs"
    using assms by (rule sort_rows_stable_permutation)
  then show ?thesis by (simp add: select_rows_def)
qed

text \<open>Three rows, two of one date: the third row moves, the two keep their order.\<close>

theorem stable_permutation_absorbed_witness:
  "mset [[(''time'', ''10/02/2026'')], [(''time'', ''09/02/2026''), (''year'', ''2026'')],
         [(''time'', ''09/02/2026''), (''year'', ''2027'')]]
     = mset [[(''time'', ''09/02/2026''), (''year'', ''2026'')], [(''time'', ''10/02/2026'')],
             [(''time'', ''09/02/2026''), (''year'', ''2027'')]]
   \<and> list_all (\<lambda>r. filter (\<lambda>x. row_key x = row_key r)
          [[(''time'', ''10/02/2026'')], [(''time'', ''09/02/2026''), (''year'', ''2026'')],
           [(''time'', ''09/02/2026''), (''year'', ''2027'')]]
        = filter (\<lambda>x. row_key x = row_key r)
          [[(''time'', ''09/02/2026''), (''year'', ''2026'')], [(''time'', ''10/02/2026'')],
           [(''time'', ''09/02/2026''), (''year'', ''2027'')]])
        [[(''time'', ''09/02/2026''), (''year'', ''2026'')], [(''time'', ''10/02/2026'')],
         [(''time'', ''09/02/2026''), (''year'', ''2027'')]]
   \<and> select_rows [[(''time'', ''10/02/2026'')], [(''time'', ''09/02/2026''), (''year'', ''2026'')],
         [(''time'', ''09/02/2026''), (''year'', ''2027'')]]
     = select_rows [[(''time'', ''09/02/2026''), (''year'', ''2026'')], [(''time'', ''10/02/2026'')],
             [(''time'', ''09/02/2026''), (''year'', ''2027'')]]"
proof -
  let ?a = "[(''time'', ''09/02/2026''), (''year'', ''2026'')]"
  let ?b = "[(''time'', ''09/02/2026''), (''year'', ''2027'')]"
  let ?c = "[(''time'', ''10/02/2026'')]"
  have p: "mset [?c, ?a, ?b] = mset [?a, ?c, ?b]"
    by (simp add: add_mset_commute)
  have f: "list_all (\<lambda>r. filter (\<lambda>x. row_key x = row_key r) [?c, ?a, ?b]
        = filter (\<lambda>x. row_key x = row_key r) [?a, ?c, ?b]) [?a, ?c, ?b]"
    by code_simp
  then have f': "\<forall>r \<in> set [?a, ?c, ?b]. filter (\<lambda>x. row_key x = row_key r) [?c, ?a, ?b]
        = filter (\<lambda>x. row_key x = row_key r) [?a, ?c, ?b]"
    by (simp only: list_all_iff)
  from p f stable_permutation_absorbed [OF p f'] show ?thesis by blast
qed

text \<open>
  Two rows of 9 February 2026 that differ in the column \<^verbatim>\<open>year\<close>, in both orders: the
  digests and the selected days differ.
\<close>

theorem equal_dates_swapped_counterexample:
  "mset [[(''time'', ''09/02/2026''), (''year'', ''2027'')],
         [(''time'', ''09/02/2026''), (''year'', ''2026'')]]
     = mset [[(''time'', ''09/02/2026''), (''year'', ''2026'')],
             [(''time'', ''09/02/2026''), (''year'', ''2027'')]]
   \<and> map (\<lambda>r. dict_get r ''time'')
         [[(''time'', ''09/02/2026''), (''year'', ''2027'')],
          [(''time'', ''09/02/2026''), (''year'', ''2026'')]]
     = map (\<lambda>r. dict_get r ''time'')
         [[(''time'', ''09/02/2026''), (''year'', ''2026'')],
          [(''time'', ''09/02/2026''), (''year'', ''2027'')]]
   \<and> select_rows [[(''time'', ''09/02/2026''), (''year'', ''2026'')],
                   [(''time'', ''09/02/2026''), (''year'', ''2027'')]]
     = Inr \<lparr> rows = 2, last_date = ''09/02/2026'', next_month = ''03/2026'',
           days_in_month = 31,
           sha256 = ''e88d92ab0adbd0a80fe67506f243322c05e34f8a20201247c98e73733dfe1cb2'',
           prefix = ''e88d92ab'', int_val = 3901592235, predicted_day = 2,
           result = ''Best Purchase Day Next Month: 02-03-2026'' \<rparr>
   \<and> select_rows [[(''time'', ''09/02/2026''), (''year'', ''2027'')],
                   [(''time'', ''09/02/2026''), (''year'', ''2026'')]]
     = Inr \<lparr> rows = 2, last_date = ''09/02/2026'', next_month = ''03/2026'',
           days_in_month = 31,
           sha256 = ''340bc69271f7ade22f00b8c6d106b8bb499c75e48aa00d430ce807ecb97a522d'',
           prefix = ''340bc692'', int_val = 873186962, predicted_day = 12,
           result = ''Best Purchase Day Next Month: 12-03-2026'' \<rparr>
   \<and> select_rows [[(''time'', ''09/02/2026''), (''year'', ''2026'')],
                   [(''time'', ''09/02/2026''), (''year'', ''2027'')]]
     \<noteq> select_rows [[(''time'', ''09/02/2026''), (''year'', ''2027'')],
                      [(''time'', ''09/02/2026''), (''year'', ''2026'')]]"
proof -
  have ab: "select_rows [[(''time'', ''09/02/2026''), (''year'', ''2026'')],
                   [(''time'', ''09/02/2026''), (''year'', ''2027'')]]
     = Inr \<lparr> rows = 2, last_date = ''09/02/2026'', next_month = ''03/2026'',
           days_in_month = 31,
           sha256 = ''e88d92ab0adbd0a80fe67506f243322c05e34f8a20201247c98e73733dfe1cb2'',
           prefix = ''e88d92ab'', int_val = 3901592235, predicted_day = 2,
           result = ''Best Purchase Day Next Month: 02-03-2026'' \<rparr>"
    by code_simp
  have ba: "select_rows [[(''time'', ''09/02/2026''), (''year'', ''2027'')],
                   [(''time'', ''09/02/2026''), (''year'', ''2026'')]]
     = Inr \<lparr> rows = 2, last_date = ''09/02/2026'', next_month = ''03/2026'',
           days_in_month = 31,
           sha256 = ''340bc69271f7ade22f00b8c6d106b8bb499c75e48aa00d430ce807ecb97a522d'',
           prefix = ''340bc692'', int_val = 873186962, predicted_day = 12,
           result = ''Best Purchase Day Next Month: 12-03-2026'' \<rparr>"
    by code_simp
  show ?thesis
    unfolding ab ba by (simp add: add_mset_commute dict_get_def)
qed

subsection \<open>C6: the date key of a malformed date\<close>

text \<open>
  Claim C6 does not hold of the code. A time that is not three parts, or whose last part
  is not four characters long, gets the key \<open>(0, 0, 0)\<close> (lemma \<open>parse_date_key_sentinel\<close>),
  but three parts with a last part of four characters are converted with \<^verbatim>\<open>int\<close>, which
  raises \<^verbatim>\<open>ValueError\<close> on a part that is not a number.
\<close>

theorem parse_date_key_raises:
  "parse_date_key ''ab/cd/efgh'' = Inl ValueError"
  by code_simp

subsection \<open>C7: no rows\<close>

text \<open>
  Claim C7. With no data row the call fails: \<^verbatim>\<open>rows[-1]\<close> raises \<^verbatim>\<open>IndexError\<close>, which
  nothing catches, so the caller receives it. This exception is what the specification
  calls \<^verbatim>\<open>EmptyInputError\<close>.
\<close>

theorem empty_input_fails:
  "read_rows text = [] \<Longrightarrow> compute_best_day text = Inl IndexError"
  by (simp add: compute_best_day_def select_rows_def sort_rows_def select_day_def
      anchor_time_def)

theorem empty_input_fails_witness:
  "read_rows ''time,year'' = [] \<and> compute_best_day ''time,year'' = Inl IndexError"
proof -
  have h: "read_rows ''time,year'' = []" by code_simp
  from h empty_input_fails [OF h] show ?thesis by (rule conjI)
qed

subsection \<open>C8: columns outside the schema\<close>

text \<open>
  Claim C8. Two inputs whose rows agree, row by row in file order, on the 39 recognised
  columns give the same outcome: the sort looks at \<^verbatim>\<open>time\<close> only, so it puts both inputs
  in the same order, and the anchor and the canonical string look at recognised columns
  only. What a column outside the schema holds, and whether it is there, has no effect.
\<close>

theorem unrecognised_columns_ignored:
  assumes "list_all2 agree_on_schema rs rs'"
  shows "select_rows rs = select_rows rs'"
  using agree_sort_rows [OF assms]
  by (auto simp: select_rows_def agree_select_day)


theorem unrecognised_columns_ignored_witness:
  "list_all2 agree_on_schema
     (read_rows (''time,note'' @ [CHR 0x0A] @ ''09/02/2026,first''))
     (read_rows (''remark,time,more'' @ [CHR 0x0A] @ ''second,09/02/2026,third''))
   \<and> select_rows (read_rows (''time,note'' @ [CHR 0x0A] @ ''09/02/2026,first''))
     = select_rows (read_rows (''remark,time,more'' @ [CHR 0x0A] @ ''second,09/02/2026,third''))"
proof -
  have h: "list_all2 agree_on_schema
     (read_rows (''time,note'' @ [CHR 0x0A] @ ''09/02/2026,first''))
     (read_rows (''remark,time,more'' @ [CHR 0x0A] @ ''second,09/02/2026,third''))"
    by code_simp
  from h unrecognised_columns_ignored [OF h] show ?thesis by (rule conjI)
qed

subsection \<open>C9: blanks around cells and header names\<close>

text \<open>
  Claim C9. Every header name and every value of a row that is read is free of leading
  and trailing blanks (the characters \<^verbatim>\<open>str.strip()\<close> removes), so stripping the time
  field again changes nothing. Consequently two files with the same lines and cells, cell
  by cell equal up to leading and trailing blanks, are read into the same rows and give
  the same outcome. A file is taken as a table of cells here, a cell holding no comma,
  line feed or carriage return: the format does not allow the first two in a cell, and
  text mode turns a carriage return into a line feed, so that no cell of the text read
  holds one and the text read is the file's own (\<open>universal_newlines\<close> leaves it as it is).
\<close>

theorem blanks_around_cells_ignored:
  assumes "table_ok a" and "table_ok b" and "same_up_to_blanks a b"
  shows "universal_newlines (render_table a) = render_table a
       \<and> universal_newlines (render_table b) = render_table b
       \<and> list_all (list_all (\<lambda>(k, v). strip k = k \<and> strip v = v)) (read_rows (render_table a))
       \<and> read_rows (render_table a) = read_rows (render_table b)
       \<and> compute_best_day (render_table a) = compute_best_day (render_table b)"
proof -
  have "map line_cells (split CHR 0x0A (render_table a))
      = map line_cells (split CHR 0x0A (render_table b))"
    using assms by (simp add: cells_render same_up_to_blanks_map)
  then have "map line_cells (read_lines (render_table a))
      = map line_cells (read_lines (render_table b))"
    unfolding read_lines_def by (rule cells_strip_cong)
  then have "read_rows (render_table a) = read_rows (render_table b)"
    by (rule read_rows_cong)
  then show ?thesis
    using render_table_no_CR [OF assms(1)] render_table_no_CR [OF assms(2)]
    by (simp add: compute_best_day_def read_rows_stripped universal_newlines_id)
qed

theorem blanks_around_cells_ignored_witness:
  "table_ok [[''time'', ''note''], [''09/02/2026'', ''a b'']]
   \<and> table_ok [['' time'', ''note  ''], [CHR 0x09 # ''09/02/2026 '', '' a b'']]
   \<and> same_up_to_blanks [[''time'', ''note''], [''09/02/2026'', ''a b'']]
        [['' time'', ''note  ''], [CHR 0x09 # ''09/02/2026 '', '' a b'']]
   \<and> compute_best_day (render_table [[''time'', ''note''], [''09/02/2026'', ''a b'']])
     = compute_best_day
         (render_table [['' time'', ''note  ''], [CHR 0x09 # ''09/02/2026 '', '' a b'']])"
proof -
  have a: "table_ok [[''time'', ''note''], [''09/02/2026'', ''a b'']]"
    by code_simp
  have b: "table_ok [['' time'', ''note  ''], [CHR 0x09 # ''09/02/2026 '', '' a b'']]"
    by code_simp
  have s: "same_up_to_blanks [[''time'', ''note''], [''09/02/2026'', ''a b'']]
        [['' time'', ''note  ''], [CHR 0x09 # ''09/02/2026 '', '' a b'']]"
    by code_simp
  from a b s blanks_around_cells_ignored [OF a b s] show ?thesis by blast
qed

subsection \<open>C10: what the anchor row's time must look like\<close>

text \<open>
  Claim C10. Lines 41 to 44 read the second and third part of the anchor time and
  nothing else: they succeed exactly when there are three parts or more and \<^verbatim>\<open>int\<close>
  reads the second and the third, and they fail exactly when there are fewer than three
  parts or one of the two is not a number; the first part and the length of the year are
  not looked at. So the anchor time \<^verbatim>\<open>xx/05/26\<close>, with a day that is no number and a
  year of two digits, is accepted and gives June of the year 26.
\<close>

theorem anchor_reads_month_and_year:
  "(anchor_month_year t = Inr (m, y) \<longleftrightarrow>
      3 \<le> length (split CHR ''/'' t) \<and> py_int (split CHR ''/'' t ! 1) = Inr m
        \<and> py_int (split CHR ''/'' t ! 2) = Inr y)
   \<and> ((\<exists>e. anchor_month_year t = Inl e) \<longleftrightarrow>
      length (split CHR ''/'' t) < 3 \<or> (\<exists>e. py_int (split CHR ''/'' t ! 1) = Inl e)
        \<or> (\<exists>e. py_int (split CHR ''/'' t ! 2) = Inl e))
   \<and> (\<exists>r. compute_best_day (''time'' @ [CHR 0x0A] @ ''xx/05/26'') = Inr r
          \<and> last_date r = ''xx/05/26'' \<and> next_month r = ''06/26'')"
proof -
  have s: "sort_rows (read_rows (''time'' @ [CHR 0x0A] @ ''xx/05/26''))
      = Inr [[(''time'', ''xx/05/26'')]]"
    by code_simp
  have a: "anchor_time [[(''time'', ''xx/05/26'')]] = Inr ''xx/05/26''"
    by code_simp
  have p: "anchor_month_year ''xx/05/26'' = Inr (5, 26)"
    by code_simp
  have n: "zfill 2 (str_int (fst (next_month_year 5 26))) @ ''/''
      @ str_int (snd (next_month_year 5 26)) = ''06/26''"
    by code_simp
  from select_day_returns [OF a p] obtain r where
    "select_day [[(''time'', ''xx/05/26'')]] = Inr r" "last_date r = ''xx/05/26''"
    "next_month r = ''06/26''"
    unfolding n by auto
  then have two_digits: "\<exists>r. compute_best_day (''time'' @ [CHR 0x0A] @ ''xx/05/26'') = Inr r
          \<and> last_date r = ''xx/05/26'' \<and> next_month r = ''06/26''"
    using s by (simp add: compute_best_day_def select_rows_def)
  show ?thesis
    using anchor_month_year_Inr_iff [of t m y] anchor_month_year_Inl_iff [of t] two_digits
    by blast
qed

end
